theory Spec2Isabelle
  imports Main
begin

section \<open>The generator of \<open>magic_square.py\<close>\<close>

text \<open>
  Python integers are unbounded, so sizes, cursor coordinates and cell values are
  \<open>int\<close>. The grid is a list of rows; \<open>[[0] * n for _ in range(n)]\<close> builds \<open>n\<close>
  separate rows, so no two rows alias and a list of lists is faithful.

  The function has two ways of not returning a grid: the guard on even sizes, which
  prints a message and returns \<open>None\<close> (the condition the specification names
  \<open>InvalidSize\<close>), and the exceptions the interpreter raises on a list index out of
  range or a modulus by zero.
\<close>

datatype error = InvalidSize | IndexError | ZeroDivisionError

type_synonym grid = "int list list"

text \<open>The loop variables \<open>magic_square\<close>, \<open>r\<close>, \<open>c\<close>, \<open>num\<close>, in this order.\<close>

type_synonym state = "grid \<times> int \<times> int \<times> int"

subsection \<open>Python primitives\<close>

text \<open>
  \<open>xs[i]\<close>: an index in \<open>[0, len)\<close> is used as it is, one in \<open>[-len, 0)\<close> counts
  from the end, any other raises \<open>IndexError\<close>.
\<close>

definition py_index :: "'a list \<Rightarrow> int \<Rightarrow> error + nat" where
  "py_index xs i =
     (let len = int (length xs); j = (if i < 0 then len + i else i)
      in if 0 \<le> j \<and> j < len then Inr (nat j) else Inl IndexError)"

text \<open>\<open>a % b\<close>: floor modulus, the sign of the divisor; \<open>b = 0\<close> raises.\<close>

definition py_mod :: "int \<Rightarrow> int \<Rightarrow> error + int" where
  "py_mod a b = (if b = 0 then Inl ZeroDivisionError else Inr (a mod b))"

text \<open>\<open>magic_square[r][c]\<close> as a read.\<close>

definition get_cell :: "grid \<Rightarrow> int \<Rightarrow> int \<Rightarrow> error + int" where
  "get_cell magic_square r c =
     (case py_index magic_square r of
        Inl e \<Rightarrow> Inl e
      | Inr i \<Rightarrow>
          (case py_index (magic_square ! i) c of
             Inl e \<Rightarrow> Inl e
           | Inr j \<Rightarrow> Inr (magic_square ! i ! j)))"

text \<open>\<open>magic_square[r][c] = v\<close>: the row is read, then updated in place.\<close>

definition set_cell :: "grid \<Rightarrow> int \<Rightarrow> int \<Rightarrow> int \<Rightarrow> error + grid" where
  "set_cell magic_square r c v =
     (case py_index magic_square r of
        Inl e \<Rightarrow> Inl e
      | Inr i \<Rightarrow>
          (case py_index (magic_square ! i) c of
             Inl e \<Rightarrow> Inl e
           | Inr j \<Rightarrow> Inr (magic_square[i := (magic_square ! i)[j := v]])))"

subsection \<open>The placement loop\<close>

text \<open>
  One iteration of \<open>while num <= total_cells\<close> (lines 43 to 60): place \<open>num\<close>, remember
  the cursor, move up and right with wraparound, and if that cell is taken move one
  row down from the remembered position instead.
\<close>

definition body :: "int \<Rightarrow> state \<Rightarrow> error + state" where
  "body n s =
     (case s of (magic_square, r, c, num) \<Rightarrow>
        (case set_cell magic_square r c num of
           Inl e \<Rightarrow> Inl e
         | Inr magic_square' \<Rightarrow>
             (let prev_r = r; prev_c = c in
              case py_mod (r - 1) n of
                Inl e \<Rightarrow> Inl e
              | Inr r' \<Rightarrow>
                  (case py_mod (c + 1) n of
                     Inl e \<Rightarrow> Inl e
                   | Inr c' \<Rightarrow>
                       (case get_cell magic_square' r' c' of
                          Inl e \<Rightarrow> Inl e
                        | Inr v \<Rightarrow>
                            if v \<noteq> 0 then
                              (case py_mod (prev_r + 1) n of
                                 Inl e \<Rightarrow> Inl e
                               | Inr r'' \<Rightarrow> Inr (magic_square', r'', prev_c, num + 1))
                            else Inr (magic_square', r', c', num + 1))))))"

lemma body_num:
  "body n (magic_square, r, c, num) = Inr (magic_square', r', c', num') \<Longrightarrow> num' = num + 1"
  by (auto simp: body_def Let_def split: sum.splits if_splits)

function loop :: "int \<Rightarrow> int \<Rightarrow> state \<Rightarrow> error + state" where
  "loop n total_cells (magic_square, r, c, num) =
     (if num \<le> total_cells then
        (case body n (magic_square, r, c, num) of
           Inl e \<Rightarrow> Inl e
         | Inr s' \<Rightarrow> loop n total_cells s')
      else Inr (magic_square, r, c, num))"
  by pat_completeness auto
termination
proof (relation "measure (\<lambda>(n, total_cells, magic_square, r, c, num). nat (total_cells + 1 - num))")
  show "wf (measure (\<lambda>(n, total_cells, magic_square, r, c, num). nat (total_cells + 1 - num)))"
    by simp
next
  fix n total_cells :: int and magic_square :: grid and r c num :: int and s' :: state
  assume le: "num \<le> total_cells" and b: "body n (magic_square, r, c, num) = Inr s'"
  obtain g' r' c' num' where s': "s' = (g', r', c', num')"
    by (cases s') auto
  from b s' have "num' = num + 1"
    by (auto dest: body_num)
  with le s'
  show "((n, total_cells, s'), (n, total_cells, magic_square, r, c, num))
          \<in> measure (\<lambda>(n, total_cells, magic_square, r, c, num). nat (total_cells + 1 - num))"
    by simp
qed

declare loop.simps [simp del]

text \<open>The state on entry to the loop (lines 32 to 40).\<close>

definition init :: "int \<Rightarrow> state" where
  "init n = (replicate (nat n) (replicate (nat n) 0), 0, n div 2, 1)"

definition create_magic_square :: "int \<Rightarrow> error + grid" where
  "create_magic_square n =
     (if n mod 2 = 0 then Inl InvalidSize
      else
        (let total_cells = n * n in
         case loop n total_cells (init n) of
           Inl e \<Rightarrow> Inl e
         | Inr (magic_square, r, c, num) \<Rightarrow> Inr magic_square))"

section \<open>Properties of a finished grid\<close>

text \<open>
  The sums the specification speaks of: every row, every column, the main diagonal
  (top left to bottom right) and the other diagonal (top right to bottom left).
\<close>

definition row_sums :: "grid \<Rightarrow> int list" where
  "row_sums g = map sum_list g"

definition col_sums :: "grid \<Rightarrow> int list" where
  "col_sums g = map (\<lambda>j. sum_list (map (\<lambda>row. row ! j) g)) [0..<length g]"

definition diag_sum :: "grid \<Rightarrow> int" where
  "diag_sum g = sum_list (map (\<lambda>i. g ! i ! i) [0..<length g])"

definition anti_diag_sum :: "grid \<Rightarrow> int" where
  "anti_diag_sum g = sum_list (map (\<lambda>i. g ! i ! (length g - 1 - i)) [0..<length g])"

text \<open>The magic sum \<open>n (n\<^sup>2 + 1) / 2\<close>; the numerator is even, so the division is exact.\<close>

definition magic_sum :: "int \<Rightarrow> int" where
  "magic_sum n = n * (n * n + 1) div 2"

section \<open>Where the loop puts each number\<close>

text \<open>
  Placements are counted from \<open>0\<close>: placement \<open>k\<close> writes \<open>k + 1\<close>. Write
  \<open>k = i * n + j\<close> with \<open>0 \<le> j < n\<close>. Within a run of \<open>n\<close> placements the cursor
  moves up and right, and between two runs it moves one row down, so placement \<open>k\<close>
  lands on \<open>cell n i j\<close>. In the other direction \<open>idx n r c\<close> is the placement that
  lands on row \<open>r\<close>, column \<open>c\<close>.
\<close>

definition cell :: "int \<Rightarrow> int \<Rightarrow> int \<Rightarrow> int \<times> int" where
  "cell n i j = ((2 * i - j) mod n, (n div 2 - i + j) mod n)"

definition pos :: "int \<Rightarrow> int \<Rightarrow> int \<times> int" where
  "pos n k = cell n (k div n) (k mod n)"

definition idx :: "int \<Rightarrow> int \<Rightarrow> int \<Rightarrow> int" where
  "idx n r c = ((r + c - n div 2) mod n) * n + (2 * ((r + c - n div 2) mod n) - r) mod n"

text \<open>The content of row \<open>r\<close>, column \<open>c\<close> once \<open>k\<close> numbers have been placed.\<close>

definition expected :: "int \<Rightarrow> int \<Rightarrow> int \<Rightarrow> int \<Rightarrow> int" where
  "expected n k r c = (if idx n r c < k then idx n r c + 1 else 0)"

text \<open>The two components of \<open>idx\<close>: the run \<open>i\<close> and the offset \<open>j\<close> within the run.\<close>

definition idx_i :: "int \<Rightarrow> int \<Rightarrow> int \<Rightarrow> int" where
  "idx_i n r c = (r + c - n div 2) mod n"

definition idx_j :: "int \<Rightarrow> int \<Rightarrow> int \<Rightarrow> int" where
  "idx_j n r c = (2 * ((r + c - n div 2) mod n) - r) mod n"

text \<open>
  The grid after \<open>k\<close> placements: \<open>n\<close> rows of \<open>n\<close> cells, each holding what
  \<open>expected\<close> says.
\<close>

definition placed :: "int \<Rightarrow> int \<Rightarrow> grid \<Rightarrow> bool" where
  "placed n k g \<longleftrightarrow>
     length g = nat n \<and>
     (\<forall>i<nat n. length (g ! i) = nat n \<and> (\<forall>j<nat n. g ! i ! j = expected n k (int i) (int j)))"

text \<open>
  The invariant of the loop, at the loop head after \<open>k\<close> iterations: \<open>num\<close> is
  \<open>k + 1\<close>, the grid holds the first \<open>k\<close> placements, and the cursor is where
  placement \<open>k\<close> goes.
\<close>

definition loop_inv :: "int \<Rightarrow> int \<Rightarrow> state \<Rightarrow> bool" where
  "loop_inv n k s = (case s of (g, r, c, num) \<Rightarrow> num = k + 1 \<and> placed n k g \<and> (r, c) = pos n k)"

text \<open>The body of the loop run \<open>d\<close> times, stopping at the first exception.\<close>

fun iter :: "nat \<Rightarrow> int \<Rightarrow> state \<Rightarrow> error + state" where
  "iter 0 n s = Inr s"
| "iter (Suc d) n s = (case body n s of Inl e \<Rightarrow> Inl e | Inr s' \<Rightarrow> iter d n s')"

subsection \<open>The two maps are inverse to each other\<close>

lemma div_lt_square:
  fixes n :: int
  assumes "0 < n" "k < n * n"
  shows "k div n < n"
proof (rule ccontr)
  assume "\<not> k div n < n"
  then have "n * n \<le> n * (k div n)"
    using assms by (intro mult_left_mono) simp_all
  moreover have "n * (k div n) \<le> k"
    using mult_div_mod_eq[of n k] pos_mod_sign[of n k] assms by linarith
  ultimately show False using assms by linarith
qed

lemma idx_range:
  fixes n :: int
  assumes "0 < n"
  shows "0 \<le> idx n r c" and "idx n r c < n * n"
proof -
  let ?i = "(r + c - n div 2) mod n" and ?j = "(2 * ((r + c - n div 2) mod n) - r) mod n"
  have i: "0 \<le> ?i" "?i < n" and j: "0 \<le> ?j" "?j < n"
    using assms by simp_all
  show "0 \<le> idx n r c"
    using i j assms by (simp add: idx_def)
  have "?i * n + ?j < (?i + 1) * n"
    using j by (simp add: algebra_simps)
  also have "\<dots> \<le> n * n"
    using i assms by (intro mult_right_mono) linarith+
  finally show "idx n r c < n * n"
    by (simp add: idx_def)
qed

lemma idx_div:
  fixes n :: int
  assumes "0 < n"
  shows "idx n r c div n = (r + c - n div 2) mod n"
    and "idx n r c mod n = (2 * ((r + c - n div 2) mod n) - r) mod n"
  using assms by (simp_all add: idx_def)

lemma pos_idx:
  fixes n :: int
  assumes "0 < n" "0 \<le> r" "r < n" "0 \<le> c" "c < n"
  shows "pos n (idx n r c) = (r, c)"
  using assms by (simp add: pos_def cell_def idx_div mod_simps)

lemma pos_range:
  fixes n :: int
  assumes "0 < n"
  shows "0 \<le> fst (pos n k)" "fst (pos n k) < n" "0 \<le> snd (pos n k)" "snd (pos n k) < n"
  using assms by (simp_all add: pos_def cell_def)

lemma idx_cell:
  fixes n :: int
  assumes "0 < n" "0 \<le> i" "i < n" "0 \<le> j" "j < n"
  shows "idx n ((2 * i - j) mod n) ((n div 2 - i + j) mod n) = i * n + j"
proof -
  have "((2 * i - j) mod n + (n div 2 - i + j) mod n - n div 2) mod n
          = ((2 * i - j) + (n div 2 - i + j) - n div 2) mod n"
    by (intro mod_diff_cong mod_add_cong) simp_all
  also have "(2 * i - j) + (n div 2 - i + j) - n div 2 = i"
    by simp
  also have "i mod n = i"
    using assms by simp
  finally have i: "((2 * i - j) mod n + (n div 2 - i + j) mod n - n div 2) mod n = i" .
  have "(2 * i - (2 * i - j) mod n) mod n = (2 * i - (2 * i - j)) mod n"
    by (intro mod_diff_cong) simp_all
  also have "2 * i - (2 * i - j) = j"
    by simp
  also have "j mod n = j"
    using assms by simp
  finally have j: "(2 * i - (2 * i - j) mod n) mod n = j" .
  show ?thesis
    by (simp add: idx_def i j)
qed

lemma idx_pos:
  fixes n :: int
  assumes "0 < n" "0 \<le> k" "k < n * n"
  shows "idx n (fst (pos n k)) (snd (pos n k)) = k"
proof -
  have d: "0 \<le> k div n" "k div n < n"
    using assms by (simp_all add: pos_imp_zdiv_nonneg_iff div_lt_square)
  have "idx n (fst (pos n k)) (snd (pos n k)) = (k div n) * n + k mod n"
    unfolding pos_def cell_def fst_conv snd_conv
    using assms d by (intro idx_cell) simp_all
  then show ?thesis by simp
qed


lemma cell_up_right:
  "((fst (cell n i j) - 1) mod n, (snd (cell n i j) + 1) mod n) = cell n i (j + 1)"
proof -
  have "((2 * i - j) mod n - 1) mod n = ((2 * i - j) - 1) mod n"
    by (intro mod_diff_cong) simp_all
  moreover have "((n div 2 - i + j) mod n + 1) mod n = ((n div 2 - i + j) + 1) mod n"
    by (intro mod_add_cong) simp_all
  ultimately show ?thesis
    by (simp add: cell_def algebra_simps)
qed

lemma cell_down:
  "((fst (cell n i j) + 1) mod n, snd (cell n i j)) = cell n (i + 1) (j + 1 - n)"
proof -
  have "((2 * i - j) mod n + 1) mod n = ((2 * i - j) + 1) mod n"
    by (intro mod_add_cong) simp_all
  also have "\<dots> = ((2 * i - j) + 1 + n) mod n"
    by simp
  also have "(2 * i - j) + 1 + n = 2 * (i + 1) - (j + 1 - n)"
    by simp
  finally have r: "((2 * i - j) mod n + 1) mod n = (2 * (i + 1) - (j + 1 - n)) mod n" .
  have "(n div 2 - i + j) mod n = ((n div 2 - i + j) - n) mod n"
    by simp
  also have "(n div 2 - i + j) - n = n div 2 - (i + 1) + (j + 1 - n)"
    by simp
  finally have c: "(n div 2 - i + j) mod n = (n div 2 - (i + 1) + (j + 1 - n)) mod n" .
  show ?thesis
    unfolding cell_def fst_conv snd_conv using r c by simp
qed

lemma cell_wrap: "cell n i n = cell n i 0"
proof -
  have "(2 * i - n) mod n = (2 * i - 0) mod n"
    by simp
  moreover have "(n div 2 - i + n) mod n = (n div 2 - i + 0) mod n"
    by simp
  ultimately show ?thesis
    unfolding cell_def by simp
qed

lemma succ_div_mod_inner:
  fixes n :: int
  assumes "0 < n" "k mod n + 1 < n"
  shows "(k + 1) div n = k div n" and "(k + 1) mod n = k mod n + 1"
proof -
  have e: "k + 1 = n * (k div n) + (k mod n + 1)"
    by simp
  have nn: "0 \<le> k mod n + 1"
    using assms pos_mod_sign[of n k] by linarith
  show "(k + 1) div n = k div n"
    using e nn assms(2) by (rule int_div_pos_eq)
  show "(k + 1) mod n = k mod n + 1"
    using e nn assms(2) by (rule int_mod_pos_eq)
qed

lemma succ_div_mod_last:
  fixes n :: int
  assumes "0 < n" "k mod n + 1 = n"
  shows "(k + 1) div n = k div n + 1" and "(k + 1) mod n = 0"
proof -
  have "k + 1 = n * (k div n) + (k mod n + 1)"
    by simp
  also have "\<dots> = n * (k div n + 1) + 0"
    using assms(2) by (simp add: algebra_simps)
  finally have e: "k + 1 = n * (k div n + 1) + 0" .
  show "(k + 1) div n = k div n + 1"
    using e _ assms(1) by (rule int_div_pos_eq) simp
  show "(k + 1) mod n = 0"
    using e _ assms(1) by (rule int_mod_pos_eq) simp
qed

lemma step_cursor:
  fixes n :: int
  assumes n: "0 < n" and k: "0 \<le> k" "k < n * n"
    and rc: "(r, c) = pos n k"
  shows "idx n ((r - 1) mod n) ((c + 1) mod n) < k + 1 \<Longrightarrow> ((r + 1) mod n, c) = pos n (k + 1)"
    and "\<not> idx n ((r - 1) mod n) ((c + 1) mod n) < k + 1 \<Longrightarrow> ((r - 1) mod n, (c + 1) mod n) = pos n (k + 1)"
proof -
  let ?i = "k div n" and ?j = "k mod n"
  have i: "0 \<le> ?i" "?i < n"
    using n k by (simp_all add: pos_imp_zdiv_nonneg_iff div_lt_square)
  have j: "0 \<le> ?j" "?j < n"
    using n by simp_all
  have r: "r = fst (cell n ?i ?j)" and c: "c = snd (cell n ?i ?j)"
    using rc[symmetric] by (simp_all add: pos_def)
  have cand: "((r - 1) mod n, (c + 1) mod n) = cell n ?i (?j + 1)"
    unfolding r c by (rule cell_up_right)
  have down: "((r + 1) mod n, c) = cell n (?i + 1) (?j + 1 - n)"
    unfolding r c by (rule cell_down)
  have "(idx n ((r - 1) mod n) ((c + 1) mod n) < k + 1 \<longrightarrow> ((r + 1) mod n, c) = pos n (k + 1))
      \<and> (\<not> idx n ((r - 1) mod n) ((c + 1) mod n) < k + 1 \<longrightarrow> ((r - 1) mod n, (c + 1) mod n) = pos n (k + 1))"
  proof (cases "?j + 1 < n")
    case True
    have p: "pos n (k + 1) = cell n ?i (?j + 1)"
      using succ_div_mod_inner[OF n True] by (simp add: pos_def)
    have "idx n (fst (cell n ?i (?j + 1))) (snd (cell n ?i (?j + 1))) = ?i * n + (?j + 1)"
      unfolding cell_def fst_conv snd_conv
      using n i j True by (intro idx_cell) simp_all
    then have "idx n ((r - 1) mod n) ((c + 1) mod n) = k + 1"
      by (simp flip: cand)
    then show ?thesis
      using cand p by simp
  next
    case False
    with j have last: "?j + 1 = n"
      by linarith
    have p: "pos n (k + 1) = cell n (?i + 1) 0"
      using succ_div_mod_last[OF n last] by (simp add: pos_def)
    have c0: "((r - 1) mod n, (c + 1) mod n) = cell n ?i 0"
      using cand last cell_wrap[of n ?i] by simp
    have "idx n (fst (cell n ?i 0)) (snd (cell n ?i 0)) = ?i * n + 0"
      unfolding cell_def fst_conv snd_conv
      using n i by (intro idx_cell) simp_all
    then have "idx n ((r - 1) mod n) ((c + 1) mod n) = ?i * n"
      by (simp flip: c0)
    moreover have "?i * n \<le> k"
      using mult_div_mod_eq[of n k] j unfolding mult.commute[of "k div n" n] by linarith
    ultimately show ?thesis
      using down p last by simp
  qed
  then show "idx n ((r - 1) mod n) ((c + 1) mod n) < k + 1 \<Longrightarrow> ((r + 1) mod n, c) = pos n (k + 1)"
    and "\<not> idx n ((r - 1) mod n) ((c + 1) mod n) < k + 1 \<Longrightarrow> ((r - 1) mod n, (c + 1) mod n) = pos n (k + 1)"
    by simp_all
qed

subsection \<open>One iteration keeps the invariant\<close>

lemma idx_eq_iff:
  fixes n :: int
  assumes "0 < n" "0 \<le> k" "k < n * n" "0 \<le> r" "r < n" "0 \<le> c" "c < n"
  shows "idx n r c = k \<longleftrightarrow> (r, c) = pos n k"
proof
  assume "idx n r c = k"
  then show "(r, c) = pos n k"
    using pos_idx[OF assms(1) assms(4-7)] by simp
next
  assume "(r, c) = pos n k"
  then have "r = fst (pos n k)" "c = snd (pos n k)"
    by (metis fst_conv, metis snd_conv)
  then show "idx n r c = k"
    using idx_pos[OF assms(1-3)] by simp
qed

lemma py_index_in:
  "0 \<le> i \<Longrightarrow> i < int (length xs) \<Longrightarrow> py_index xs i = Inr (nat i)"
  by (simp add: py_index_def Let_def)

lemma placedD:
  assumes "placed n k g" "0 \<le> r" "r < n" 
  shows "length g = nat n" "length (g ! nat r) = nat n"
    and "0 \<le> c \<Longrightarrow> c < n \<Longrightarrow> g ! nat r ! nat c = expected n k r c"
proof -
  have r: "nat r < nat n" using assms by simp
  show "length g = nat n" using assms by (simp add: placed_def)
  show "length (g ! nat r) = nat n" using assms(1) r by (simp add: placed_def)
  assume "0 \<le> c" "c < n"
  then have c: "nat c < nat n" by simp
  have "g ! nat r ! nat c = expected n k (int (nat r)) (int (nat c))"
    using assms(1) r c unfolding placed_def by blast
  then show "g ! nat r ! nat c = expected n k r c"
    using \<open>0 \<le> r\<close> \<open>0 \<le> c\<close> by simp
qed

lemma get_cell_placed:
  assumes "placed n k g" "0 \<le> r" "r < n" "0 \<le> c" "c < n"
  shows "get_cell g r c = Inr (expected n k r c)"
  using placedD[OF assms(1-3)] assms
  by (simp add: get_cell_def py_index_in)

lemma set_cell_placed:
  assumes n: "0 < n" and k: "0 \<le> k" "k < n * n"
    and g: "placed n k g" and rc: "(r, c) = pos n k"
  shows "set_cell g r c (k + 1) = Inr (g[nat r := (g ! nat r)[nat c := k + 1]])"
    and "placed n (k + 1) (g[nat r := (g ! nat r)[nat c := k + 1]])"
proof -
  have r: "0 \<le> r" "r < n" and c: "0 \<le> c" "c < n"
    using pos_range[OF n, of k] by (simp_all flip: rc)
  note len = placedD(1,2)[OF g r]
  show "set_cell g r c (k + 1) = Inr (g[nat r := (g ! nat r)[nat c := k + 1]])"
    using len r c by (simp add: set_cell_def py_index_in)
  let ?g = "g[nat r := (g ! nat r)[nat c := k + 1]]"
  show "placed n (k + 1) ?g"
    unfolding placed_def
  proof (intro conjI allI impI)
    show "length ?g = nat n" using len by simp
  next
    fix i assume i: "i < nat n"
    then show "length (?g ! i) = nat n"
      using g len by (cases "i = nat r") (simp_all add: placed_def)
  next
    fix i j assume i: "i < nat n" and j: "j < nat n"
    have old: "g ! i ! j = expected n k (int i) (int j)"
      using g i j unfolding placed_def by blast
    have iff: "idx n (int i) (int j) = k \<longleftrightarrow> (int i, int j) = (r, c)"
      unfolding rc using n k i j by (intro idx_eq_iff) simp_all
    show "?g ! i ! j = expected n (k + 1) (int i) (int j)"
    proof (cases "i = nat r \<and> j = nat c")
      case True
      then have "(int i, int j) = (r, c)" using r c by simp
      with iff have "idx n (int i) (int j) = k" by simp
      then show ?thesis
        using True len i j by (simp add: expected_def)
    next
      case False
      then have "(int i, int j) \<noteq> (r, c)" using r c by auto
      with iff have ne: "idx n (int i) (int j) \<noteq> k" by simp
      have "?g ! i ! j = g ! i ! j"
        using False len i j by (cases "i = nat r") simp_all
      then show ?thesis
        using old ne by (simp add: expected_def)
    qed
  qed
qed

lemma body_step:
  assumes n: "0 < n" and k: "0 \<le> k" "k < n * n"
    and g: "placed n k g" and rc: "(r, c) = pos n k"
  shows "body n (g, r, c, k + 1) =
           Inr (g[nat r := (g ! nat r)[nat c := k + 1]], fst (pos n (k + 1)), snd (pos n (k + 1)), k + 2)"
proof -
  let ?g = "g[nat r := (g ! nat r)[nat c := k + 1]]"
  let ?r = "(r - 1) mod n" and ?c = "(c + 1) mod n"
  note set = set_cell_placed[OF n k g rc]
  have get: "get_cell ?g ?r ?c = Inr (expected n (k + 1) ?r ?c)"
    using set(2) n by (intro get_cell_placed) simp_all
  have nz: "expected n (k + 1) ?r ?c \<noteq> 0 \<longleftrightarrow> idx n ?r ?c < k + 1"
    using idx_range(1)[OF n, of ?r ?c] by (simp add: expected_def)
  show ?thesis
  proof (cases "idx n ?r ?c < k + 1")
    case True
    from step_cursor(1)[OF n k rc True] have "pos n (k + 1) = ((r + 1) mod n, c)" by simp
    then show ?thesis
      using True n set(1) get nz by (simp add: body_def py_mod_def)
  next
    case False
    from step_cursor(2)[OF n k rc False] have "pos n (k + 1) = (?r, ?c)" by simp
    then show ?thesis
      using False n set(1) get nz by (simp add: body_def py_mod_def)
  qed
qed

lemma body_inv:
  assumes n: "0 < n" and k: "0 \<le> k" "k < n * n" and i: "loop_inv n k s"
  shows "\<exists>s'. body n s = Inr s' \<and> loop_inv n (k + 1) s'"
proof -
  obtain g r c num where s: "s = (g, r, c, num)"
    by (cases s) auto
  from i s have num: "num = k + 1" and g: "placed n k g" and rc: "(r, c) = pos n k"
    by (simp_all add: loop_inv_def)
  show ?thesis
    unfolding s num
    using body_step[OF n k g rc] set_cell_placed(2)[OF n k g rc]
    by (simp add: loop_inv_def)
qed

lemma init_inv:
  assumes "0 < n"
  shows "loop_inv n 0 (init n)"
proof -
  have "0 \<le> n div 2" "n div 2 < n"
    using assms by simp_all
  then have "pos n 0 = (0, n div 2)"
    using assms by (simp add: pos_def cell_def)
  moreover have "\<not> idx n r c < 0" for r c
    using idx_range(1)[OF assms, of r c] by simp
  then have "placed n 0 (replicate (nat n) (replicate (nat n) 0))"
    by (simp add: placed_def expected_def)
  ultimately show ?thesis
    by (simp add: loop_inv_def init_def)
qed

lemma iter_inv:
  assumes n: "0 < n"
  shows "0 \<le> k \<Longrightarrow> k + int d \<le> n * n \<Longrightarrow> loop_inv n k s \<Longrightarrow> \<exists>s'. iter d n s = Inr s' \<and> loop_inv n (k + int d) s'"
proof (induction d arbitrary: k s)
  case 0
  then show ?case by simp
next
  case (Suc d)
  from Suc.prems have "k < n * n" by simp
  from body_inv[OF n Suc.prems(1) this Suc.prems(3)]
  obtain s1 where s1: "body n s = Inr s1" "loop_inv n (k + 1) s1" by blast
  have "\<exists>s'. iter d n s1 = Inr s' \<and> loop_inv n (k + 1 + int d) s'"
    using Suc.prems s1 by (intro Suc.IH) simp_all
  moreover have "k + 1 + int d = k + int (Suc d)"
    by simp
  ultimately show ?case
    using s1(1) by (simp del: of_nat_Suc)
qed

lemma loop_iter:
  assumes n: "0 < n"
  shows "0 \<le> k \<Longrightarrow> k + int d = n * n \<Longrightarrow> loop_inv n k s \<Longrightarrow> loop n (n * n) s = iter d n s"
proof (induction d arbitrary: k s)
  case 0
  obtain g r c num where s: "s = (g, r, c, num)"
    by (cases s) auto
  with 0 have "num = n * n + 1" by (simp add: loop_inv_def)
  then show ?case
    unfolding s by (simp add: loop.simps)
next
  case (Suc d)
  obtain g r c num where s: "s = (g, r, c, num)"
    by (cases s) auto
  from Suc.prems have lt: "k < n * n" by simp
  from Suc.prems s have num: "num \<le> n * n" by (simp add: loop_inv_def)
  from body_inv[OF n Suc.prems(1) lt Suc.prems(3)]
  obtain s1 where s1: "body n s = Inr s1" "loop_inv n (k + 1) s1" by blast
  have "loop n (n * n) s1 = iter d n s1"
    using Suc.prems s1 by (intro Suc.IH[of "k + 1"]) simp_all
  then show ?case
    using s1 num unfolding s by (simp add: loop.simps)
qed

subsection \<open>Sums over a permutation of the residues\<close>

lemma idx_split: "idx n r c = idx_i n r c * n + idx_j n r c"
  by (simp add: idx_def idx_i_def idx_j_def)

lemma sum_nat_int:
  fixes f :: "int \<Rightarrow> int"
  assumes "0 \<le> n"
  shows "(\<Sum>t\<in>{0..<nat n}. f (int t)) = (\<Sum>t\<in>{0..<n}. f t)"
proof -
  have "(\<Sum>t\<in>{0..<nat n}. f (int t)) = sum f (int ` {0..<nat n})"
    by (simp add: sum.reindex)
  also have "int ` {0..<nat n} = {0..<n}"
    using assms by (simp add: image_int_atLeastLessThan)
  finally show ?thesis .
qed

lemma gauss_nat: "2 * (\<Sum>t\<in>{0..<m}. int t) = int m * (int m - 1)"
  by (induction m) (simp_all add: algebra_simps)

lemma gauss_int:
  fixes n :: int
  assumes "0 \<le> n"
  shows "2 * (\<Sum>t\<in>{0..<n}. t) = n * (n - 1)"
  using gauss_nat[of "nat n"] sum_nat_int[OF assms, of "\<lambda>t. t"] assms by simp

lemma sum_perm:
  fixes n :: int and h :: "int \<Rightarrow> int"
  assumes inj: "inj_on h {0..<n}" and range: "\<And>x. x \<in> {0..<n} \<Longrightarrow> h x \<in> {0..<n}"
  shows "(\<Sum>x\<in>{0..<n}. h x) = (\<Sum>x\<in>{0..<n}. x)"
proof -
  have "h ` {0..<n} = {0..<n}"
    using range inj by (intro endo_inj_surj) auto
  then have "bij_betw h {0..<n} {0..<n}"
    using inj by (simp add: bij_betw_def)
  then show ?thesis
    by (rule sum.reindex_bij_betw[of h _ _ "\<lambda>x. x"])
qed

lemma inj_affine:
  fixes n a b :: int
  assumes n: "0 < n" and co: "coprime n a"
  shows "inj_on (\<lambda>x. (a * x + b) mod n) {0..<n}"
proof (rule inj_onI)
  fix x y assume x: "x \<in> {0..<n}" and y: "y \<in> {0..<n}"
    and e: "(a * x + b) mod n = (a * y + b) mod n"
  from e have "n dvd (a * x + b) - (a * y + b)"
    by (simp only: mod_eq_dvd_iff)
  then have "n dvd a * (x - y)"
    by (simp add: algebra_simps)
  then have "n dvd x - y"
    using co by (simp add: coprime_dvd_mult_right_iff)
  then have "x mod n = y mod n"
    by (simp only: mod_eq_dvd_iff)
  then show "x = y"
    using x y by simp
qed

lemma sum_affine:
  fixes n a b :: int
  assumes n: "0 < n" and co: "coprime n a"
  shows "2 * (\<Sum>x\<in>{0..<n}. (a * x + b) mod n) = n * (n - 1)"
proof -
  have "(\<Sum>x\<in>{0..<n}. (a * x + b) mod n) = (\<Sum>x\<in>{0..<n}. x)"
    using n by (intro sum_perm inj_affine co) simp_all
  then show ?thesis
    using gauss_int[of n] n by simp
qed

lemma sum_reflect:
  fixes n :: int and f :: "int \<Rightarrow> int"
  shows "(\<Sum>t\<in>{0..<n}. f (n - 1 - t)) = (\<Sum>t\<in>{0..<n}. f t)"
  by (rule sum.reindex_bij_witness[of _ "\<lambda>t. n - 1 - t" "\<lambda>t. n - 1 - t"]) auto

lemma mod_reflect:
  fixes n a :: int
  assumes "0 < n"
  shows "(- 1 - a) mod n = n - 1 - a mod n"
proof -
  have "(n - 1 - a mod n) mod n = (n - 1 - a) mod n"
    by (intro mod_diff_cong) simp_all
  also have "n - 1 - a = (- 1 - a) + n"
    by simp
  also have "((- 1 - a) + n) mod n = (- 1 - a) mod n"
    by simp
  finally have "(- 1 - a) mod n = (n - 1 - a mod n) mod n"
    by simp
  also have "\<dots> = n - 1 - a mod n"
    using assms pos_mod_sign[of n a] pos_mod_bound[of n a] by (intro mod_pos_pos_trivial) linarith+
  finally show ?thesis .
qed

lemma line_sum:
  fixes n :: int and rr cc :: "int \<Rightarrow> int"
  assumes n: "0 < n"
    and i: "2 * (\<Sum>t\<in>{0..<n}. idx_i n (rr t) (cc t)) = n * (n - 1)"
    and j: "2 * (\<Sum>t\<in>{0..<n}. idx_j n (rr t) (cc t)) = n * (n - 1)"
  shows "(\<Sum>t\<in>{0..<n}. idx n (rr t) (cc t) + 1) = magic_sum n"
proof -
  define A where "A = (\<Sum>t\<in>{0..<n}. idx_i n (rr t) (cc t))"
  define B where "B = (\<Sum>t\<in>{0..<n}. idx_j n (rr t) (cc t))"
  have "(\<Sum>t\<in>{0..<n}. idx n (rr t) (cc t) + 1) = A * n + B + n"
    using n by (simp add: idx_split sum.distrib sum_distrib_right A_def B_def)
  then have "2 * (\<Sum>t\<in>{0..<n}. idx n (rr t) (cc t) + 1) = (2 * A) * n + 2 * B + 2 * n"
    by (simp add: algebra_simps)
  also have "\<dots> = n * (n - 1) * n + n * (n - 1) + 2 * n"
    using i j by (simp only: A_def B_def)
  also have "\<dots> = n * (n * n + 1)"
    by (simp add: algebra_simps)
  finally show ?thesis
    by (simp add: magic_sum_def)
qed

subsection \<open>The sum along a row, a column and each diagonal\<close>

lemma sum_affine_fun:
  fixes n a b :: int and f :: "int \<Rightarrow> int"
  assumes "0 < n" "coprime n a" "\<And>t. f t = (a * t + b) mod n"
  shows "2 * (\<Sum>t\<in>{0..<n}. f t) = n * (n - 1)"
  using sum_affine[OF assms(1,2), of b] by (simp only: assms(3))

lemma idx_j_eq: "idx_j n r c = (r + 2 * c - 2 * (n div 2)) mod n"
proof -
  have "(2 * ((r + c - n div 2) mod n) - r) mod n = (2 * (r + c - n div 2) - r) mod n"
    by (intro mod_diff_cong mod_mult_cong) simp_all
  also have "2 * (r + c - n div 2) - r = r + 2 * c - 2 * (n div 2)"
    by simp
  finally show ?thesis
    by (simp only: idx_j_def)
qed

lemma odd_half:
  fixes n :: int
  assumes "odd n"
  shows "2 * (n div 2) = n - 1"
  using odd_two_times_div_two_succ[OF assms] by simp

lemma row_line:
  fixes n :: int
  assumes n: "0 < n" and odd: "odd n"
  shows "(\<Sum>t\<in>{0..<n}. idx n r t + 1) = magic_sum n"
proof (rule line_sum[OF n])
  show "2 * (\<Sum>t\<in>{0..<n}. idx_i n r t) = n * (n - 1)"
  proof (rule sum_affine_fun[OF n, where a = 1 and b = "r - n div 2"])
    show "idx_i n r t = (1 * t + (r - n div 2)) mod n" for t
      unfolding idx_i_def by (rule arg_cong[where f = "\<lambda>x. x mod n"]) simp
  qed simp
  show "2 * (\<Sum>t\<in>{0..<n}. idx_j n r t) = n * (n - 1)"
  proof (rule sum_affine_fun[OF n, where a = 2 and b = "r - 2 * (n div 2)"])
    show "idx_j n r t = (2 * t + (r - 2 * (n div 2))) mod n" for t
      unfolding idx_j_eq by (rule arg_cong[where f = "\<lambda>x. x mod n"]) simp
    show "coprime n 2"
      using odd by simp
  qed
qed

lemma col_line:
  fixes n :: int
  assumes n: "0 < n"
  shows "(\<Sum>t\<in>{0..<n}. idx n t c + 1) = magic_sum n"
proof (rule line_sum[OF n])
  show "2 * (\<Sum>t\<in>{0..<n}. idx_i n t c) = n * (n - 1)"
  proof (rule sum_affine_fun[OF n, where a = 1 and b = "c - n div 2"])
    show "idx_i n t c = (1 * t + (c - n div 2)) mod n" for t
      unfolding idx_i_def by (rule arg_cong[where f = "\<lambda>x. x mod n"]) simp
  qed simp
  show "2 * (\<Sum>t\<in>{0..<n}. idx_j n t c) = n * (n - 1)"
  proof (rule sum_affine_fun[OF n, where a = 1 and b = "2 * c - 2 * (n div 2)"])
    show "idx_j n t c = (1 * t + (2 * c - 2 * (n div 2))) mod n" for t
      unfolding idx_j_eq by (rule arg_cong[where f = "\<lambda>x. x mod n"]) simp
  qed simp
qed

lemma anti_line:
  fixes n :: int
  assumes n: "0 < n" and odd: "odd n"
  shows "(\<Sum>t\<in>{0..<n}. idx n t (n - 1 - t) + 1) = magic_sum n"
proof (rule line_sum[OF n, where cc = "\<lambda>t. n - 1 - t"])
  have m: "0 \<le> n div 2" "n div 2 < n"
    using n by simp_all
  have "idx_i n t (n - 1 - t) = n div 2" for t
  proof -
    have "t + (n - 1 - t) - n div 2 = n div 2"
      using odd_half[OF odd] by simp
    then show ?thesis
      using m by (simp add: idx_i_def)
  qed
  then have "(\<Sum>t\<in>{0..<n}. idx_i n t (n - 1 - t)) = n * (n div 2)"
    using n by simp
  then have "2 * (\<Sum>t\<in>{0..<n}. idx_i n t (n - 1 - t)) = n * (2 * (n div 2))"
    by simp
  then show "2 * (\<Sum>t\<in>{0..<n}. idx_i n t (n - 1 - t)) = n * (n - 1)"
    by (simp only: odd_half[OF odd])
  show "2 * (\<Sum>t\<in>{0..<n}. idx_j n t (n - 1 - t)) = n * (n - 1)"
  proof (rule sum_affine_fun[OF n, where a = "- 1" and b = "2 * n - 2 - 2 * (n div 2)"])
    show "idx_j n t (n - 1 - t) = (- 1 * t + (2 * n - 2 - 2 * (n div 2))) mod n" for t
      unfolding idx_j_eq by (rule arg_cong[where f = "\<lambda>x. x mod n"]) simp
  qed simp
qed

lemma diag_line:
  fixes n :: int
  assumes n: "0 < n" and odd: "odd n"
  shows "(\<Sum>t\<in>{0..<n}. idx n t t + 1) = magic_sum n"
proof (rule line_sum[OF n])
  show "2 * (\<Sum>t\<in>{0..<n}. idx_i n t t) = n * (n - 1)"
  proof (rule sum_affine_fun[OF n, where a = 2 and b = "- (n div 2)"])
    show "idx_i n t t = (2 * t + - (n div 2)) mod n" for t
      unfolding idx_i_def by (rule arg_cong[where f = "\<lambda>x. x mod n"]) simp
    show "coprime n 2"
      using odd by simp
  qed
  let ?f = "\<lambda>t. idx_j n t t"
  have refl: "?f (n - 1 - t) = n - 1 - ?f t" for t
  proof -
    have "?f (n - 1 - t) = ((n - 1 - t) + 2 * (n - 1 - t) - 2 * (n div 2)) mod n"
      by (simp only: idx_j_eq)
    also have "(n - 1 - t) + 2 * (n - 1 - t) - 2 * (n div 2) = (- 1 - (t + 2 * t - 2 * (n div 2))) + n"
      using odd_half[OF odd] by simp
    also have "((- 1 - (t + 2 * t - 2 * (n div 2))) + n) mod n = (- 1 - (t + 2 * t - 2 * (n div 2))) mod n"
      by simp
    also have "\<dots> = n - 1 - (t + 2 * t - 2 * (n div 2)) mod n"
      by (rule mod_reflect[OF n])
    finally show ?thesis
      by (simp only: idx_j_eq)
  qed
  have "(\<Sum>t\<in>{0..<n}. ?f t) = (\<Sum>t\<in>{0..<n}. ?f (n - 1 - t))"
    by (rule sum_reflect[symmetric])
  also have "\<dots> = (\<Sum>t\<in>{0..<n}. n - 1 - ?f t)"
    by (simp only: refl)
  also have "\<dots> = n * (n - 1) - (\<Sum>t\<in>{0..<n}. ?f t)"
    using n by (simp add: sum_subtractf)
  finally show "2 * (\<Sum>t\<in>{0..<n}. idx_j n t t) = n * (n - 1)"
    by simp
qed

subsection \<open>The finished grid\<close>

lemma placed_full:
  assumes n: "0 < n" and g: "placed n (n * n) g" and i: "i < nat n" and j: "j < nat n"
  shows "g ! i ! j = idx n (int i) (int j) + 1"
proof -
  have "g ! i ! j = expected n (n * n) (int i) (int j)"
    using g i j unfolding placed_def by blast
  then show ?thesis
    using idx_range(2)[OF n, of "int i" "int j"] by (simp add: expected_def)
qed

lemma placed_length:
  assumes "placed n k g"
  shows "length g = nat n" and "i < nat n \<Longrightarrow> length (g ! i) = nat n"
  using assms by (simp_all add: placed_def)

lemma row_sums_placed:
  assumes n: "0 < n" and odd: "odd n" and g: "placed n (n * n) g"
  shows "row_sums g = replicate (nat n) (magic_sum n)"
proof (rule nth_equalityI)
  show "length (row_sums g) = length (replicate (nat n) (magic_sum n))"
    using placed_length(1)[OF g] by (simp add: row_sums_def)
next
  fix i assume "i < length (row_sums g)"
  then have i: "i < nat n"
    using placed_length(1)[OF g] by (simp add: row_sums_def)
  have "sum_list (g ! i) = (\<Sum>j\<in>{0..<nat n}. g ! i ! j)"
    using placed_length(2)[OF g i] by (simp add: sum_list_sum_nth)
  also have "\<dots> = (\<Sum>j\<in>{0..<nat n}. idx n (int i) (int j) + 1)"
    using placed_full[OF n g i] by simp
  also have "\<dots> = (\<Sum>t\<in>{0..<n}. idx n (int i) t + 1)"
    using n by (intro sum_nat_int) simp
  also have "\<dots> = magic_sum n"
    by (rule row_line[OF n odd])
  finally show "row_sums g ! i = replicate (nat n) (magic_sum n) ! i"
    using i placed_length(1)[OF g] by (simp add: row_sums_def)
qed

lemma col_sums_placed:
  assumes n: "0 < n" and g: "placed n (n * n) g"
  shows "col_sums g = replicate (nat n) (magic_sum n)"
proof (rule nth_equalityI)
  show "length (col_sums g) = length (replicate (nat n) (magic_sum n))"
    using placed_length(1)[OF g] by (simp add: col_sums_def)
next
  fix j assume "j < length (col_sums g)"
  then have j: "j < nat n"
    using placed_length(1)[OF g] by (simp add: col_sums_def)
  have "sum_list (map (\<lambda>row. row ! j) g) = (\<Sum>i\<in>{0..<nat n}. g ! i ! j)"
    using placed_length(1)[OF g] by (simp add: sum_list_sum_nth)
  also have "\<dots> = (\<Sum>i\<in>{0..<nat n}. idx n (int i) (int j) + 1)"
    using placed_full[OF n g _ j] by simp
  also have "\<dots> = (\<Sum>t\<in>{0..<n}. idx n t (int j) + 1)"
    using n by (intro sum_nat_int) simp
  also have "\<dots> = magic_sum n"
    by (rule col_line[OF n])
  finally show "col_sums g ! j = replicate (nat n) (magic_sum n) ! j"
    using j placed_length(1)[OF g] by (simp add: col_sums_def)
qed

lemma diag_sum_placed:
  assumes n: "0 < n" and odd: "odd n" and g: "placed n (n * n) g"
  shows "diag_sum g = magic_sum n"
proof -
  have "diag_sum g = (\<Sum>i\<in>{0..<nat n}. g ! i ! i)"
    using placed_length(1)[OF g] by (simp add: diag_sum_def interv_sum_list_conv_sum_set_nat)
  also have "\<dots> = (\<Sum>i\<in>{0..<nat n}. idx n (int i) (int i) + 1)"
    using placed_full[OF n g] by simp
  also have "\<dots> = (\<Sum>t\<in>{0..<n}. idx n t t + 1)"
    using n by (intro sum_nat_int) simp
  also have "\<dots> = magic_sum n"
    by (rule diag_line[OF n odd])
  finally show ?thesis .
qed

lemma anti_diag_sum_placed:
  assumes n: "0 < n" and odd: "odd n" and g: "placed n (n * n) g"
  shows "anti_diag_sum g = magic_sum n"
proof -
  have "anti_diag_sum g = (\<Sum>i\<in>{0..<nat n}. g ! i ! (nat n - 1 - i))"
    using placed_length(1)[OF g] by (simp add: anti_diag_sum_def interv_sum_list_conv_sum_set_nat)
  also have "\<dots> = (\<Sum>i\<in>{0..<nat n}. idx n (int i) (n - 1 - int i) + 1)"
  proof (rule sum.cong)
    fix i assume "i \<in> {0..<nat n}"
    then have i: "i < nat n" by simp
    then have j: "nat n - 1 - i < nat n" by simp
    have "int (nat n - 1 - i) = n - 1 - int i"
      using i by simp
    then show "g ! i ! (nat n - 1 - i) = idx n (int i) (n - 1 - int i) + 1"
      using placed_full[OF n g i j] by simp
  qed simp
  also have "\<dots> = (\<Sum>t\<in>{0..<n}. idx n t (n - 1 - t) + 1)"
    using n by (intro sum_nat_int) simp
  also have "\<dots> = magic_sum n"
    by (rule anti_line[OF n odd])
  finally show ?thesis .
qed

lemma set_concat_placed:
  assumes n: "0 < n" and g: "placed n (n * n) g"
  shows "set (concat g) = {1..n * n}"
proof (intro set_eqI iffI)
  fix v assume "v \<in> set (concat g)"
  then obtain row where row: "row \<in> set g" "v \<in> set row"
    by auto
  then obtain i where i: "i < nat n" "row = g ! i"
    using placed_length(1)[OF g] by (auto simp: in_set_conv_nth)
  with row obtain j where j: "j < nat n" "v = g ! i ! j"
    using placed_length(2)[OF g] by (auto simp: in_set_conv_nth)
  have "v = idx n (int i) (int j) + 1"
    using placed_full[OF n g i(1) j(1)] j(2) by simp
  then show "v \<in> {1..n * n}"
    using idx_range[OF n, of "int i" "int j"] by simp
next
  fix v assume "v \<in> {1..n * n}"
  then have k: "0 \<le> v - 1" "v - 1 < n * n"
    by simp_all
  define i where "i = nat (fst (pos n (v - 1)))"
  define j where "j = nat (snd (pos n (v - 1)))"
  have i: "i < nat n" "int i = fst (pos n (v - 1))"
    and j: "j < nat n" "int j = snd (pos n (v - 1))"
    using pos_range[OF n, of "v - 1"] by (simp_all add: i_def j_def)
  have "g ! i ! j = idx n (int i) (int j) + 1"
    by (rule placed_full[OF n g i(1) j(1)])
  also have "\<dots> = v"
    unfolding i(2) j(2) using idx_pos[OF n k] by simp
  finally have "v = g ! i ! j" by simp
  moreover have "g ! i \<in> set g"
    using i(1) placed_length(1)[OF g] by simp
  moreover have "g ! i ! j \<in> set (g ! i)"
    using j(1) placed_length(2)[OF g i(1)] by simp
  ultimately show "v \<in> set (concat g)"
    by auto
qed

lemma distinct_concat_placed:
  assumes n: "0 < n" and g: "placed n (n * n) g"
  shows "distinct (concat g)"
proof (rule card_distinct)
  have "map length g = replicate (nat n) (nat n)"
    using placed_length[OF g] by (intro nth_equalityI) simp_all
  then have "length (concat g) = nat n * nat n"
    by (simp add: length_concat sum_list_replicate)
  moreover have "card (set (concat g)) = nat (n * n)"
    unfolding set_concat_placed[OF n g] by simp
  ultimately show "card (set (concat g)) = length (concat g)"
    using n by (simp add: nat_mult_distrib)
qed

lemma create_placed:
  assumes n: "0 < n" and odd: "odd n"
  shows "\<exists>g. create_magic_square n = Inr g \<and> placed n (n * n) g"
proof -
  have sq: "0 + int (nat (n * n)) = n * n"
    using n by simp
  have "\<exists>s'. iter (nat (n * n)) n (init n) = Inr s' \<and> loop_inv n (0 + int (nat (n * n))) s'"
    using sq by (intro iter_inv[OF n] init_inv[OF n]) simp_all
  then obtain s' where s': "iter (nat (n * n)) n (init n) = Inr s'" "loop_inv n (n * n) s'"
    unfolding sq by blast
  have "loop n (n * n) (init n) = iter (nat (n * n)) n (init n)"
    using sq by (intro loop_iter[OF n _ _ init_inv[OF n]]) simp_all
  with s' have l: "loop n (n * n) (init n) = Inr s'"
    by simp
  obtain g r c num where "s' = (g, r, c, num)"
    by (cases s') auto
  with l s'(2) odd show ?thesis
    by (simp add: create_magic_square_def loop_inv_def odd_iff_mod_2_eq_one)
qed

lemma magic_sum_exact: "2 * magic_sum n = n * (n * n + 1)"
proof -
  have "even (n * (n * n + 1))"
    by simp
  then show ?thesis
    unfolding magic_sum_def by simp
qed

subsection \<open>An exception inside the loop leaves it\<close>

lemma loop_body_raises:
  assumes "num \<le> total_cells" "body n (g, r, c, num) = Inl e"
  shows "loop n total_cells (g, r, c, num) = Inl e"
  using assms by (simp add: loop.simps)

subsection \<open>The states the loop goes through\<close>

lemma iter_Suc_end:
  "iter (Suc d) n s = (case iter d n s of Inl e \<Rightarrow> Inl e | Inr s' \<Rightarrow> body n s')"
proof (induction d arbitrary: s)
  case 0
  show ?case by (simp split: sum.splits)
next
  case (Suc d)
  show ?case
  proof (cases "body n s")
    case (Inl e)
    then show ?thesis by simp
  next
    case (Inr s1)
    have "iter (Suc (Suc d)) n s = iter (Suc d) n s1"
      using Inr by simp
    also have "\<dots> = (case iter d n s1 of Inl e \<Rightarrow> Inl e | Inr s' \<Rightarrow> body n s')"
      by (rule Suc.IH)
    also have "iter d n s1 = iter (Suc d) n s"
      using Inr by simp
    finally show ?thesis .
  qed
qed

lemma reach:
  assumes n: "0 < n" and k: "int k \<le> n * n"
  shows "\<exists>g r c. iter k n (init n) = Inr (g, r, c, int k + 1) \<and> placed n (int k) g \<and> (r, c) = pos n (int k)"
proof -
  have "\<exists>s'. iter k n (init n) = Inr s' \<and> loop_inv n (0 + int k) s'"
    using k by (intro iter_inv[OF n] init_inv[OF n]) simp_all
  then obtain s' where s': "iter k n (init n) = Inr s'" "loop_inv n (int k) s'"
    by auto
  obtain g r c num where "s' = (g, r, c, num)"
    by (cases s') auto
  with s' show ?thesis
    by (simp add: loop_inv_def)
qed

lemma body_rule:
  assumes "n \<noteq> 0" "set_cell g r c num = Inr g'"
    and "get_cell g' ((r - 1) mod n) ((c + 1) mod n) = Inr v"
  shows "body n (g, r, c, num) =
           Inr (g', if v \<noteq> 0 then (r + 1) mod n else (r - 1) mod n,
                    if v \<noteq> 0 then c else (c + 1) mod n, num + 1)"
  using assms by (simp add: body_def py_mod_def)

section \<open>A concrete trace\<close>

text \<open>
  Size 3, third and fourth loop head. The third placement writes 3 at row 1, column 0;
  the cell up and right of it, row 0, column 1, holds 1, so the cursor goes one row
  down, to row 2, column 0.
\<close>

lemma trace_3:
  "iter 2 3 (init 3) = Inr ([[0, 1, 0], [0, 0, 0], [0, 0, 2]], 1, 0, 3)
   \<and> iter 3 3 (init 3) = Inr ([[0, 1, 0], [3, 0, 0], [0, 0, 2]], 2, 0, 4)"
  by code_simp

section \<open>The claims\<close>

text \<open>
  C1. For every odd positive \<open>n\<close> the function returns a grid of \<open>n\<close> rows of \<open>n\<close>
  cells in which every integer from 1 to \<open>n\<^sup>2\<close> occurs exactly once (the \<open>n\<^sup>2\<close> cells
  are pairwise different and their values are the set \<open>{1..n\<^sup>2}\<close>), and every row,
  every column and both diagonals sum to \<open>n (n\<^sup>2 + 1) / 2\<close>, the division being exact.
\<close>

theorem create_magic:
  assumes "0 < n" and "odd n"
  shows "\<exists>g. create_magic_square n = Inr g
           \<and> length g = nat n \<and> (\<forall>row\<in>set g. length row = nat n)
           \<and> distinct (concat g) \<and> set (concat g) = {1..n * n}
           \<and> row_sums g = replicate (nat n) (magic_sum n)
           \<and> col_sums g = replicate (nat n) (magic_sum n)
           \<and> diag_sum g = magic_sum n
           \<and> anti_diag_sum g = magic_sum n
           \<and> 2 * magic_sum n = n * (n * n + 1)"
proof -
  from create_placed[OF assms] obtain g
    where c: "create_magic_square n = Inr g" and g: "placed n (n * n) g"
    by blast
  have rows: "\<forall>row\<in>set g. length row = nat n"
    using placed_length[OF g] by (auto simp: in_set_conv_nth)
  show ?thesis
    using c rows placed_length(1)[OF g]
      distinct_concat_placed[OF assms(1) g] set_concat_placed[OF assms(1) g]
      row_sums_placed[OF assms g] col_sums_placed[OF assms(1) g]
      diag_sum_placed[OF assms g] anti_diag_sum_placed[OF assms g]
      magic_sum_exact[of n]
    by blast
qed

theorem create_magic_witness:
  "0 < (5::int) \<and> odd (5::int)
   \<and> (\<exists>g. create_magic_square 5 = Inr g
           \<and> length g = nat 5 \<and> (\<forall>row\<in>set g. length row = nat 5)
           \<and> distinct (concat g) \<and> set (concat g) = {1..5 * 5}
           \<and> row_sums g = replicate (nat 5) (magic_sum 5)
           \<and> col_sums g = replicate (nat 5) (magic_sum 5)
           \<and> diag_sum g = magic_sum 5
           \<and> anti_diag_sum g = magic_sum 5
           \<and> 2 * magic_sum 5 = 5 * (5 * 5 + 1))"
  using create_magic [of 5] by simp

text \<open>
  C2. For every even size the guard of line 27 answers before the grid is built: the
  result is the \<open>InvalidSize\<close> condition and no grid.
\<close>

theorem create_even_invalid:
  "even n \<Longrightarrow> create_magic_square n = Inl InvalidSize"
  by (simp add: create_magic_square_def)

theorem create_even_invalid_witness:
  "even (4::int) \<and> create_magic_square 4 = Inl InvalidSize
   \<and> even (- 6::int) \<and> create_magic_square (- 6) = Inl InvalidSize"
  using create_even_invalid [of 4] create_even_invalid [of "- 6"] by simp

text \<open>
  C3, as the code has it. The guard tests parity only. A size \<open>n \<le> 0\<close> never yields a
  grid, but the condition depends on the parity: an even size, zero included, is
  answered with \<open>InvalidSize\<close>; an odd negative size passes the guard, the grid is
  built empty, and the first placement \<open>magic_square[0][c] = 1\<close> raises \<open>IndexError\<close>.
\<close>

theorem create_nonpositive:
  assumes "n \<le> 0"
  shows "create_magic_square n = (if even n then Inl InvalidSize else Inl IndexError)"
proof (cases "even n")
  case True
  then show ?thesis
    by (simp add: create_magic_square_def)
next
  case False
  then have "n \<noteq> 0"
    by auto
  with assms have "n < 0"
    by simp
  then have "0 < n * n"
    using mult_neg_neg[of n n] by simp
  then have "1 \<le> n * n"
    by simp
  moreover have "body n ([], 0, n div 2, 1) = Inl IndexError"
    by (simp add: body_def set_cell_def py_index_def)
  ultimately have "loop n (n * n) ([], 0, n div 2, 1) = Inl IndexError"
    by (rule loop_body_raises)
  moreover have "init n = ([], 0, n div 2, 1)"
    using assms by (simp add: init_def)
  ultimately show ?thesis
    using False by (simp add: create_magic_square_def odd_iff_mod_2_eq_one)
qed

theorem create_nonpositive_witness:
  "(- 4::int) \<le> 0 \<and> create_magic_square (- 4) = Inl InvalidSize
   \<and> (0::int) \<le> 0 \<and> create_magic_square 0 = Inl InvalidSize
   \<and> (- 1::int) \<le> 0 \<and> create_magic_square (- 1) = Inl IndexError"
  using create_nonpositive [of "- 4"] create_nonpositive [of 0] create_nonpositive [of "- 1"]
  by simp

text \<open>
  C3, as the specification states it, fails at \<open>n = -3\<close>: the outcome is the
  interpreter's \<open>IndexError\<close>, not \<open>InvalidSize\<close>.
\<close>

theorem create_neg3_not_invalid_size:
  "(- 3::int) \<le> 0 \<and> create_magic_square (- 3) = Inl IndexError
   \<and> create_magic_square (- 3) \<noteq> Inl InvalidSize"
  by code_simp

text \<open>
  C4. For every odd positive \<open>n\<close> and every iteration \<open>k < n\<^sup>2\<close> (counted from 0): the
  iteration starts with the cursor \<open>(r, c)\<close> inside the grid and \<open>num = k + 1\<close>. The grid
  \<open>g'\<close> it leaves is the old grid with \<open>k + 1\<close> written at row \<open>r\<close>, column \<open>c\<close>, and
  this is what \<open>magic_square[r][c] = num\<close> yields. The value \<open>v\<close> it tests is the content
  of \<open>g'\<close> at row \<open>(r - 1) mod n\<close>, column \<open>(c + 1) mod n\<close>, one cell and no other, and
  this is what the read of line 54 yields. The cursor it leaves is
  \<open>((r + 1) mod n, c)\<close> when \<open>v\<close> is not 0, and the cell tested when \<open>v\<close> is 0. Both
  coordinates stay in \<open>[0, n)\<close>.
\<close>

theorem siamese_step:
  assumes "0 < n" and "odd n" and "int k < n * n"
  shows "\<exists>g r c g' v r' c'.
           iter k n (init n) = Inr (g, r, c, int k + 1)
         \<and> 0 \<le> r \<and> r < n \<and> 0 \<le> c \<and> c < n
         \<and> g' = g[nat r := (g ! nat r)[nat c := int k + 1]]
         \<and> set_cell g r c (int k + 1) = Inr g'
         \<and> v = g' ! nat ((r - 1) mod n) ! nat ((c + 1) mod n)
         \<and> get_cell g' ((r - 1) mod n) ((c + 1) mod n) = Inr v
         \<and> iter (Suc k) n (init n) = Inr (g', r', c', int k + 2)
         \<and> (r', c') = (if v \<noteq> 0 then ((r + 1) mod n, c) else ((r - 1) mod n, (c + 1) mod n))
         \<and> 0 \<le> r' \<and> r' < n \<and> 0 \<le> c' \<and> c' < n"
proof -
  note n = assms(1)
  have k: "0 \<le> int k" "int k < n * n" "int k \<le> n * n"
    using assms(3) by simp_all
  from reach[OF n k(3)] obtain g r c
    where it: "iter k n (init n) = Inr (g, r, c, int k + 1)"
      and g: "placed n (int k) g" and rc: "(r, c) = pos n (int k)"
    by blast
  have range: "0 \<le> r" "r < n" "0 \<le> c" "c < n"
    using pos_range[OF n, of "int k"] by (simp_all flip: rc)
  define g' where "g' = g[nat r := (g ! nat r)[nat c := int k + 1]]"
  define v where "v = g' ! nat ((r - 1) mod n) ! nat ((c + 1) mod n)"
  define r' where "r' = (if v \<noteq> 0 then (r + 1) mod n else (r - 1) mod n)"
  define c' where "c' = (if v \<noteq> 0 then c else (c + 1) mod n)"
  have set: "set_cell g r c (int k + 1) = Inr g'" and g': "placed n (int k + 1) g'"
    unfolding g'_def by (rule set_cell_placed[OF n k(1,2) g rc])+
  have cand: "0 \<le> (r - 1) mod n" "(r - 1) mod n < n" "0 \<le> (c + 1) mod n" "(c + 1) mod n < n"
    using n by simp_all
  have "get_cell g' ((r - 1) mod n) ((c + 1) mod n)
          = Inr (expected n (int k + 1) ((r - 1) mod n) ((c + 1) mod n))"
    by (rule get_cell_placed[OF g' cand])
  moreover have "v = expected n (int k + 1) ((r - 1) mod n) ((c + 1) mod n)"
    unfolding v_def by (rule placedD(3)[OF g' cand])
  ultimately have get: "get_cell g' ((r - 1) mod n) ((c + 1) mod n) = Inr v"
    by simp
  have "body n (g, r, c, int k + 1) = Inr (g', r', c', int k + 1 + 1)"
    unfolding r'_def c'_def using n by (intro body_rule[OF _ set get]) simp
  then have next_state: "iter (Suc k) n (init n) = Inr (g', r', c', int k + 2)"
    by (simp only: iter_Suc_end it) simp
  have rule: "(r', c') = (if v \<noteq> 0 then ((r + 1) mod n, c) else ((r - 1) mod n, (c + 1) mod n))"
    by (simp add: r'_def c'_def)
  have range': "0 \<le> r'" "r' < n" "0 \<le> c'" "c' < n"
    using n range by (simp_all add: r'_def c'_def)
  show ?thesis
    using it range g'_def set v_def get next_state rule range' by blast
qed

theorem siamese_step_witness:
  "0 < (3::int) \<and> odd (3::int) \<and> int 2 < 3 * 3
   \<and> (\<exists>g r c g' v r' c'.
           iter 2 3 (init 3) = Inr (g, r, c, int 2 + 1)
         \<and> 0 \<le> r \<and> r < 3 \<and> 0 \<le> c \<and> c < 3
         \<and> g' = g[nat r := (g ! nat r)[nat c := int 2 + 1]]
         \<and> set_cell g r c (int 2 + 1) = Inr g'
         \<and> v = g' ! nat ((r - 1) mod 3) ! nat ((c + 1) mod 3)
         \<and> get_cell g' ((r - 1) mod 3) ((c + 1) mod 3) = Inr v
         \<and> iter (Suc 2) 3 (init 3) = Inr (g', r', c', int 2 + 2)
         \<and> (r', c') = (if v \<noteq> 0 then ((r + 1) mod 3, c) else ((r - 1) mod 3, (c + 1) mod 3))
         \<and> 0 \<le> r' \<and> r' < 3 \<and> 0 \<le> c' \<and> c' < 3)"
  using siamese_step [of 3 2] by simp

text \<open>
  C5. For every odd positive \<open>n\<close> the returned grid has 1 in row 0, column
  \<open>n div 2\<close>, read the way Python reads \<open>grid[0][n // 2]\<close>.
\<close>

theorem one_in_top_middle:
  assumes "0 < n" and "odd n"
  shows "\<exists>g. create_magic_square n = Inr g \<and> get_cell g 0 (n div 2) = Inr 1"
proof -
  from create_placed[OF assms] obtain g
    where c: "create_magic_square n = Inr g" and g: "placed n (n * n) g"
    by blast
  have m: "0 \<le> n div 2" "n div 2 < n"
    using assms(1) by simp_all
  have "idx n 0 (n div 2) = 0"
    by (simp add: idx_def)
  then have "expected n (n * n) 0 (n div 2) = 1"
    using assms(1) by (simp add: expected_def)
  moreover have "get_cell g 0 (n div 2) = Inr (expected n (n * n) 0 (n div 2))"
    using assms(1) m by (intro get_cell_placed[OF g]) simp_all
  ultimately show ?thesis
    using c by simp
qed

theorem one_in_top_middle_witness:
  "0 < (7::int) \<and> odd (7::int)
   \<and> (\<exists>g. create_magic_square 7 = Inr g \<and> get_cell g 0 (7 div 2) = Inr 1)"
  using one_in_top_middle [of 7] by simp

text \<open>
  C6. Size 3 gives the grid of the specification's scenario, and its three row sums,
  three column sums and two diagonal sums are all 15.
\<close>

theorem create_3:
  "create_magic_square 3 = Inr [[8, 1, 6], [3, 5, 7], [4, 9, 2]]
   \<and> row_sums [[8, 1, 6], [3, 5, 7], [4, 9, 2]] = [15, 15, 15]
   \<and> col_sums [[8, 1, 6], [3, 5, 7], [4, 9, 2]] = [15, 15, 15]
   \<and> diag_sum [[8, 1, 6], [3, 5, 7], [4, 9, 2]] = 15
   \<and> anti_diag_sum [[8, 1, 6], [3, 5, 7], [4, 9, 2]] = 15
   \<and> magic_sum 3 = 15"
  by code_simp

text \<open>C7. Size 1 gives the grid with the single cell 1.\<close>

theorem create_1: "create_magic_square 1 = Inr [[1]]"
  by code_simp

text \<open>
  C8. For every odd positive \<open>n\<close> the loop returns, and what it returns is the body
  run exactly \<open>n\<^sup>2\<close> times: the state it ends in has \<open>num = n\<^sup>2 + 1\<close>, where the loop
  condition fails, and for every \<open>k < n\<^sup>2\<close> the state after \<open>k\<close> runs of the body has
  \<open>num = k + 1 \<le> n\<^sup>2\<close>, where the condition holds, and the next run of the body
  succeeds and leaves \<open>k + 1\<close> in the cell under the cursor.
\<close>

theorem loop_iterations:
  assumes "0 < n" and "odd n"
  shows "\<exists>g r c.
           loop n (n * n) (init n) = Inr (g, r, c, n * n + 1)
         \<and> iter (nat (n * n)) n (init n) = Inr (g, r, c, n * n + 1)
         \<and> (\<forall>k<nat (n * n). \<exists>g r c g' r' c'.
               iter k n (init n) = Inr (g, r, c, int k + 1)
             \<and> int k + 1 \<le> n * n
             \<and> body n (g, r, c, int k + 1) = Inr (g', r', c', int k + 2)
             \<and> get_cell g' r c = Inr (int k + 1))"
proof -
  note n = assms(1)
  have sq: "int (nat (n * n)) = n * n"
    using n by simp
  from reach[OF n, of "nat (n * n)"] obtain g r c
    where it: "iter (nat (n * n)) n (init n) = Inr (g, r, c, n * n + 1)"
    unfolding sq by auto
  have "loop n (n * n) (init n) = iter (nat (n * n)) n (init n)"
    using sq by (intro loop_iter[OF n _ _ init_inv[OF n]]) simp_all
  with it have lp: "loop n (n * n) (init n) = Inr (g, r, c, n * n + 1)"
    by simp
  have each: "\<exists>g r c g' r' c'.
               iter k n (init n) = Inr (g, r, c, int k + 1)
             \<and> int k + 1 \<le> n * n
             \<and> body n (g, r, c, int k + 1) = Inr (g', r', c', int k + 2)
             \<and> get_cell g' r c = Inr (int k + 1)" if "k < nat (n * n)" for k
  proof -
    have k: "0 \<le> int k" "int k < n * n" "int k \<le> n * n"
      using that by simp_all
    from reach[OF n k(3)] obtain g r c
      where it: "iter k n (init n) = Inr (g, r, c, int k + 1)"
        and g: "placed n (int k) g" and rc: "(r, c) = pos n (int k)"
      by blast
    have range: "0 \<le> r" "r < n" "0 \<le> c" "c < n"
      using pos_range[OF n, of "int k"] by (simp_all flip: rc)
    define g' where "g' = g[nat r := (g ! nat r)[nat c := int k + 1]]"
    have g': "placed n (int k + 1) g'"
      unfolding g'_def by (rule set_cell_placed(2)[OF n k(1,2) g rc])
    have b: "body n (g, r, c, int k + 1) = Inr (g', fst (pos n (int k + 1)), snd (pos n (int k + 1)), int k + 2)"
      unfolding g'_def by (rule body_step[OF n k(1,2) g rc])
    have "idx n r c = int k"
      using idx_pos[OF n k(1,2)] by (simp flip: rc)
    then have "expected n (int k + 1) r c = int k + 1"
      by (simp add: expected_def)
    then have "get_cell g' r c = Inr (int k + 1)"
      using get_cell_placed[OF g' range] by simp
    with it b k(2) show ?thesis
      by auto
  qed
  show ?thesis
    using lp it each by blast
qed

theorem loop_iterations_witness:
  "0 < (3::int) \<and> odd (3::int)
   \<and> (\<exists>g r c.
           loop 3 (3 * 3) (init 3) = Inr (g, r, c, 3 * 3 + 1)
         \<and> iter (nat (3 * 3)) 3 (init 3) = Inr (g, r, c, 3 * 3 + 1)
         \<and> (\<forall>k<nat (3 * 3). \<exists>g r c g' r' c'.
               iter k 3 (init 3) = Inr (g, r, c, int k + 1)
             \<and> int k + 1 \<le> 3 * 3
             \<and> body 3 (g, r, c, int k + 1) = Inr (g', r', c', int k + 2)
             \<and> get_cell g' r c = Inr (int k + 1)))"
  using loop_iterations [of 3] by simp

text \<open>
  C10. For every odd positive \<open>n\<close> and every \<open>k \<le> n\<^sup>2\<close>, after \<open>k\<close> iterations: if a
  further placement follows (\<open>k < n\<^sup>2\<close>), the cell under the cursor, where it will
  write, still holds 0; the grid has \<open>n\<close> rows of \<open>n\<close> cells; every cell holds 0 or a
  value in \<open>1..k\<close>; and each value in \<open>1..k\<close> is held by exactly one cell.
\<close>

theorem placement_on_empty_cell:
  assumes "0 < n" and "odd n" and "int k \<le> n * n"
  shows "\<exists>g r c.
           iter k n (init n) = Inr (g, r, c, int k + 1)
         \<and> (int k < n * n \<longrightarrow> get_cell g r c = Inr 0)
         \<and> length g = nat n \<and> (\<forall>row\<in>set g. length row = nat n)
         \<and> (\<forall>i<nat n. \<forall>j<nat n. g ! i ! j = 0 \<or> g ! i ! j \<in> {1..int k})
         \<and> (\<forall>v\<in>{1..int k}. \<exists>!p. p \<in> {0..<nat n} \<times> {0..<nat n} \<and> g ! fst p ! snd p = v)"
proof -
  note n = assms(1)
  from reach[OF n assms(3)] obtain g r c
    where it: "iter k n (init n) = Inr (g, r, c, int k + 1)"
      and g: "placed n (int k) g" and rc: "(r, c) = pos n (int k)"
    by blast
  have cell: "g ! i ! j = expected n (int k) (int i) (int j)" if "i < nat n" "j < nat n" for i j
    using g that unfolding placed_def by blast
  have range: "0 \<le> r" "r < n" "0 \<le> c" "c < n"
    using pos_range[OF n, of "int k"] by (simp_all flip: rc)
  have empty: "get_cell g r c = Inr 0" if "int k < n * n"
  proof -
    have "idx n r c = int k"
      using idx_pos[OF n _ that] by (simp flip: rc)
    then have "expected n (int k) r c = 0"
      by (simp add: expected_def)
    then show ?thesis
      using get_cell_placed[OF g range] by simp
  qed
  have rows: "\<forall>row\<in>set g. length row = nat n"
    using placed_length[OF g] by (auto simp: in_set_conv_nth)
  have vals: "g ! i ! j = 0 \<or> g ! i ! j \<in> {1..int k}" if "i < nat n" "j < nat n" for i j
    using cell[OF that] idx_range(1)[OF n, of "int i" "int j"] by (simp add: expected_def)
  have once: "\<exists>!p. p \<in> {0..<nat n} \<times> {0..<nat n} \<and> g ! fst p ! snd p = v" if "v \<in> {1..int k}" for v
  proof -
    from that assms(3) have v: "0 \<le> v - 1" "v - 1 < n * n" "v - 1 < int k" "1 \<le> v"
      by simp_all
    define i where "i = nat (fst (pos n (v - 1)))"
    define j where "j = nat (snd (pos n (v - 1)))"
    have i: "i < nat n" "int i = fst (pos n (v - 1))"
      and j: "j < nat n" "int j = snd (pos n (v - 1))"
      using pos_range[OF n, of "v - 1"] by (simp_all add: i_def j_def)
    have "idx n (int i) (int j) = v - 1"
      unfolding i(2) j(2) by (rule idx_pos[OF n v(1,2)])
    then have here: "g ! i ! j = v"
      using cell[OF i(1) j(1)] v(3) by (simp add: expected_def)
    show ?thesis
    proof (rule ex1I[of _ "(i, j)"])
      show "(i, j) \<in> {0..<nat n} \<times> {0..<nat n} \<and> g ! fst (i, j) ! snd (i, j) = v"
        using i(1) j(1) here by simp
    next
      fix p assume p: "p \<in> {0..<nat n} \<times> {0..<nat n} \<and> g ! fst p ! snd p = v"
      then have a: "fst p < nat n" and b: "snd p < nat n" and e: "g ! fst p ! snd p = v"
        by auto
      from cell[OF a b] e v(4) have "idx n (int (fst p)) (int (snd p)) = v - 1"
        by (auto simp: expected_def split: if_splits)
      moreover have "pos n (idx n (int (fst p)) (int (snd p))) = (int (fst p), int (snd p))"
        using a b n by (intro pos_idx) simp_all
      ultimately have "pos n (v - 1) = (int (fst p), int (snd p))"
        by simp
      then have "fst p = i" "snd p = j"
        by (simp_all add: i_def j_def)
      then show "p = (i, j)"
        by (simp add: prod_eq_iff)
    qed
  qed
  show ?thesis
    using it empty rows placed_length(1)[OF g] vals once by blast
qed

theorem placement_on_empty_cell_witness:
  "0 < (3::int) \<and> odd (3::int) \<and> int 4 \<le> 3 * 3
   \<and> (\<exists>g r c.
           iter 4 3 (init 3) = Inr (g, r, c, int 4 + 1)
         \<and> (int 4 < 3 * 3 \<longrightarrow> get_cell g r c = Inr 0)
         \<and> length g = nat 3 \<and> (\<forall>row\<in>set g. length row = nat 3)
         \<and> (\<forall>i<nat 3. \<forall>j<nat 3. g ! i ! j = 0 \<or> g ! i ! j \<in> {1..int 4})
         \<and> (\<forall>v\<in>{1..int 4}. \<exists>!p. p \<in> {0..<nat 3} \<times> {0..<nat 3} \<and> g ! fst p ! snd p = v))"
  using placement_on_empty_cell [of 3 4] by simp

end
